theory Spec2Isabelle
  imports Complex_Main
begin

section \<open>Data model\<close>

text \<open>
  Both MEX gateways work on flat buffers of doubles. A buffer is a list; a double is
  an idealised \<open>real\<close>, so that the comparisons and the order of the multiply-add
  steps are those of the source while rounding, infinities and not-a-number values
  are left out. Indices are \<open>size_t\<close>;
  they are natural numbers here, and the two decrements of the source that could wrap
  are written with \<open>size_t_dec\<close>.

  A read outside a buffer is undefined behaviour in C++. In the model every read whose
  index is not guarded by the source goes through \<open>rd\<close> and yields \<open>OutOfBounds\<close>,
  which ends the run.
\<close>

datatype error = OutOfBounds | LengthMismatch

definition rd :: "'a list \<Rightarrow> nat \<Rightarrow> error + 'a" where
  "rd xs i = (if i < length xs then Inr (xs ! i) else Inl OutOfBounds)"

definition size_t_dec :: "nat \<Rightarrow> nat" where
  "size_t_dec n = (if n = 0 then 2 ^ 64 - 1 else n - 1)"

text \<open>Storing one more output value in front of the values the rest of the loop writes.\<close>

definition emit :: "'a \<Rightarrow> error + 'a list \<Rightarrow> error + 'a list" where
  "emit v rest = (case rest of Inl e \<Rightarrow> Inl e | Inr out \<Rightarrow> Inr (v # out))"

section \<open>nonUniformResampleFast (non\_uniform\_resample\_fast.cpp)\<close>

text \<open>
  A sample is the pair of \<open>y_r[k]\<close> and \<open>y_i[k]\<close>. For a real \<open>y\<close> the source
  allocates the imaginary buffers as scratch space and frees them at the end, so the
  second component is then not part of what the caller sees.
\<close>

type_synonym sample = "real \<times> real"

text \<open>
  The inner \<open>while\<close> loop (line 123): the cursor moves right while it is inside
  \<open>x\<close> and the entry under it is at most the query value.
\<close>

function advance_ref_idx :: "real list \<Rightarrow> real \<Rightarrow> nat \<Rightarrow> nat" where
  "advance_ref_idx x q ref_idx =
     (if ref_idx < length x \<and> x ! ref_idx \<le> q
      then advance_ref_idx x q (Suc ref_idx)
      else ref_idx)"
  by pat_completeness auto
termination
  by (relation "measure (\<lambda>(x, q, ref_idx). length x - ref_idx)") auto

declare advance_ref_idx.simps [simp del]

text \<open>
  The outer \<open>for\<close> loop (lines 113 to 142). \<open>ref_idx\<close> is declared before the loop
  (line 112), so the value left by one query point is the start of the next.
\<close>

fun resample_loop :: "real list \<Rightarrow> sample list \<Rightarrow> real list \<Rightarrow> nat \<Rightarrow> error + sample list" where
  "resample_loop x y [] ref_idx = Inr []"
| "resample_loop x y (q # xi) ref_idx =
     (let r = advance_ref_idx x q ref_idx in
      if r = 0 then emit (0, 0) (resample_loop x y xi r)
      else (case rd y (r - 1) of
              Inl e \<Rightarrow> Inl e
            | Inr s \<Rightarrow> emit s (resample_loop x y xi (r - 1))))"

text \<open>The gateway: the length check of lines 63 to 68, then the loop from cursor 0.\<close>

definition nonUniformResampleFast :: "real list \<Rightarrow> sample list \<Rightarrow> real list \<Rightarrow> error + sample list" where
  "nonUniformResampleFast x y xi =
     (if length x \<noteq> length y then Inl LengthMismatch else resample_loop x y xi 0)"

section \<open>ppvalFastCore (ppval\_fast\_core.cpp)\<close>

text \<open>
  \<open>std::lower_bound\<close> of the C++ standard library, as the usual bisection over
  \<open>[first, first + len)\<close>: it returns the first position whose entry is not less than
  \<open>val\<close> when the range is partitioned.
\<close>

function lower_bound_loop :: "real list \<Rightarrow> real \<Rightarrow> nat \<Rightarrow> nat \<Rightarrow> nat" where
  "lower_bound_loop a val first len =
     (if 0 < len then
        (if a ! (first + len div 2) < val
         then lower_bound_loop a val (first + len div 2 + 1) (len - len div 2 - 1)
         else lower_bound_loop a val first (len div 2))
      else first)"
  by pat_completeness auto
termination
  by (relation "measure (\<lambda>(a, val, first, len). len)") auto

declare lower_bound_loop.simps [simp del]

definition lower_bound :: "real list \<Rightarrow> real \<Rightarrow> nat" where
  "lower_bound a val = lower_bound_loop a val 0 (length a)"

text \<open>Finding the bin (lines 102 to 117); \<open>num_breaks\<close> is the length of \<open>breaks\<close>.\<close>

definition lookup_idx :: "real list \<Rightarrow> real \<Rightarrow> error + nat" where
  "lookup_idx breaks x =
     (case rd breaks 0 of
        Inl e \<Rightarrow> Inl e
      | Inr b0 \<Rightarrow>
          if x \<le> b0 then Inr 0
          else (case rd breaks (size_t_dec (length breaks)) of
                  Inl e \<Rightarrow> Inl e
                | Inr bl \<Rightarrow>
                    if x > bl then Inr (size_t_dec (length breaks))
                    else Inr (size_t_dec (lower_bound breaks x))))"

text \<open>
  The coefficient loop (lines 122 to 126): \<open>coefs\<close> is the flat buffer of the
  \<open>num_polynomials\<close> by \<open>order\<close> matrix, read at
  \<open>lookup + coef_idx * num_polynomials\<close>.
\<close>

function horner_loop :: "real list \<Rightarrow> nat \<Rightarrow> nat \<Rightarrow> nat \<Rightarrow> real \<Rightarrow> nat \<Rightarrow> real \<Rightarrow> error + real" where
  "horner_loop coefs num_polynomials order lookup delta_x coef_idx v =
     (if coef_idx < order then
        (case rd coefs (lookup + coef_idx * num_polynomials) of
           Inl e \<Rightarrow> Inl e
         | Inr c \<Rightarrow>
             horner_loop coefs num_polynomials order lookup delta_x (coef_idx + 1)
               (delta_x * v + c))
      else Inr v)"
  by pat_completeness auto
termination
  by (relation "measure (\<lambda>(coefs, np, order, lookup, delta_x, coef_idx, v). order - coef_idx)") auto

declare horner_loop.simps [simp del]

text \<open>Evaluating the polynomial of one bin (lines 120 to 126).\<close>

definition eval_bin :: "real list \<Rightarrow> real list \<Rightarrow> nat \<Rightarrow> nat \<Rightarrow> nat \<Rightarrow> real \<Rightarrow> error + real" where
  "eval_bin breaks coefs num_polynomials order lookup x =
     (case rd breaks lookup of
        Inl e \<Rightarrow> Inl e
      | Inr b \<Rightarrow>
          (case rd coefs lookup of
             Inl e \<Rightarrow> Inl e
           | Inr c0 \<Rightarrow> horner_loop coefs num_polynomials order lookup (x - b) 1 c0))"

text \<open>The body of the loop over the input values, for one value.\<close>

definition ppval_point :: "real list \<Rightarrow> real list \<Rightarrow> nat \<Rightarrow> nat \<Rightarrow> real \<Rightarrow> error + real" where
  "ppval_point breaks coefs num_polynomials order x =
     (case lookup_idx breaks x of
        Inl e \<Rightarrow> Inl e
      | Inr lookup \<Rightarrow> eval_bin breaks coefs num_polynomials order lookup x)"

text \<open>The loop over the input values (lines 97 to 127).\<close>

fun ppvalFastCore :: "real list \<Rightarrow> real list \<Rightarrow> nat \<Rightarrow> nat \<Rightarrow> real list \<Rightarrow> error + real list" where
  "ppvalFastCore breaks coefs num_polynomials order [] = Inr []"
| "ppvalFastCore breaks coefs num_polynomials order (x # xx) =
     (case ppval_point breaks coefs num_polynomials order x of
        Inl e \<Rightarrow> Inl e
      | Inr v \<Rightarrow> emit v (ppvalFastCore breaks coefs num_polynomials order xx))"

text \<open>
  The coefficient matrix as MATLAB stores it: column by column, so that entry
  \<open>(r, c)\<close> of a table with \<open>rows\<close> rows is at \<open>r + c * rows\<close>, the index of
  line 125.
\<close>

definition column_major :: "real list list \<Rightarrow> nat \<Rightarrow> nat \<Rightarrow> real list" where
  "column_major table rows cols = map (\<lambda>k. table ! (k mod rows) ! (k div rows)) [0..<rows * cols]"

text \<open>
  The nested multiplication in the specification's words: start with the first
  coefficient of the row, then \<open>acc = acc * d + c\<close> for each further column.
\<close>

fun horner_spec_from :: "real \<Rightarrow> real \<Rightarrow> real list \<Rightarrow> real" where
  "horner_spec_from acc d [] = acc"
| "horner_spec_from acc d (c # cs) = horner_spec_from (acc * d + c) d cs"

definition horner_spec :: "real list \<Rightarrow> real \<Rightarrow> real" where
  "horner_spec row d = horner_spec_from (row ! 0) d (drop 1 row)"

text \<open>
  The interval of a query in the specification's words (Convention B, for a query
  that is not to the right of the last breakpoint): interval 0 at or before the first
  breakpoint, otherwise the interval \<open>i\<close> with \<open>Axis[i] < q \<le> Axis[i+1]\<close>.
\<close>

definition interval_spec :: "real list \<Rightarrow> real \<Rightarrow> nat \<Rightarrow> bool" where
  "interval_spec axis q i =
     (if q \<le> axis ! 0 then i = 0
      else Suc i < length axis \<and> axis ! i < q \<and> q \<le> axis ! Suc i)"

section \<open>Auxiliary notions for the proofs\<close>

text \<open>
  What a scan that starts at cursor 0 copies for one query value: the loop body of
  \<open>resample_loop\<close> without a cursor left by earlier query points.
\<close>

definition fresh_value :: "real list \<Rightarrow> sample list \<Rightarrow> real \<Rightarrow> sample" where
  "fresh_value x y q =
     (if advance_ref_idx x q 0 = 0 then (0, 0) else y ! (advance_ref_idx x q 0 - 1))"

text \<open>Row \<open>lookup\<close> of the flat coefficient buffer, read with the index of line 125.\<close>

definition row_of :: "real list \<Rightarrow> nat \<Rightarrow> nat \<Rightarrow> nat \<Rightarrow> real list" where
  "row_of coefs num_polynomials order lookup =
     map (\<lambda>c. coefs ! (lookup + c * num_polynomials)) [0..<order]"

section \<open>Buffer reads and output\<close>

lemma rd_Inr_iff: "rd xs i = Inr v \<longleftrightarrow> i < length xs \<and> v = xs ! i"
  by (auto simp: rd_def)

lemma rd_Inl_iff: "rd xs i = Inl e \<longleftrightarrow> length xs \<le> i \<and> e = OutOfBounds"
  by (auto simp: rd_def)

lemma rd_in: "i < length xs \<Longrightarrow> rd xs i = Inr (xs ! i)"
  by (simp add: rd_def)

lemma rd_out: "length xs \<le> i \<Longrightarrow> rd xs i = Inl OutOfBounds"
  by (simp add: rd_def)

lemma emit_Inr_iff: "emit v rest = Inr out \<longleftrightarrow> (\<exists>tl. rest = Inr tl \<and> out = v # tl)"
  by (auto simp: emit_def split: sum.splits)

lemma advance_ge: "ref_idx \<le> advance_ref_idx x q ref_idx"
proof (induction x q ref_idx rule: advance_ref_idx.induct)
  case (1 x q ref_idx)
  show ?case
  proof (cases "ref_idx < length x \<and> x ! ref_idx \<le> q")
    case True
    with 1 have "Suc ref_idx \<le> advance_ref_idx x q (Suc ref_idx)" by simp
    with True show ?thesis by (subst advance_ref_idx.simps) simp
  next
    case False
    then show ?thesis by (subst advance_ref_idx.simps) auto
  qed
qed

lemma advance_le_length: "ref_idx \<le> length x \<Longrightarrow> advance_ref_idx x q ref_idx \<le> length x"
proof (induction x q ref_idx rule: advance_ref_idx.induct)
  case (1 x q ref_idx)
  show ?case
  proof (cases "ref_idx < length x \<and> x ! ref_idx \<le> q")
    case True
    with 1 have "advance_ref_idx x q (Suc ref_idx) \<le> length x" by simp
    with True show ?thesis by (subst advance_ref_idx.simps) simp
  next
    case False
    with 1 show ?thesis by (subst advance_ref_idx.simps) auto
  qed
qed

text \<open>Every entry the cursor has passed is at most the query value.\<close>

lemma advance_passed:
  "ref_idx \<le> k \<Longrightarrow> k < advance_ref_idx x q ref_idx \<Longrightarrow> k < length x \<and> x ! k \<le> q"
proof (induction x q ref_idx rule: advance_ref_idx.induct)
  case (1 x q ref_idx)
  show ?case
  proof (cases "ref_idx < length x \<and> x ! ref_idx \<le> q")
    case True
    then have step: "advance_ref_idx x q ref_idx = advance_ref_idx x q (Suc ref_idx)"
      by (subst advance_ref_idx.simps) simp
    show ?thesis
    proof (cases "k = ref_idx")
      case True
      with \<open>ref_idx < length x \<and> x ! ref_idx \<le> q\<close> show ?thesis by simp
    next
      case False
      with "1.prems" have "Suc ref_idx \<le> k" by simp
      with 1 True step show ?thesis by simp
    qed
  next
    case False
    then have "advance_ref_idx x q ref_idx = ref_idx"
      by (subst advance_ref_idx.simps) auto
    with "1.prems" show ?thesis by simp
  qed
qed

text \<open>Where the cursor stops inside the axis, the entry under it exceeds the query value.\<close>

lemma advance_stop:
  "advance_ref_idx x q ref_idx < length x \<Longrightarrow> q < x ! advance_ref_idx x q ref_idx"
proof (induction x q ref_idx rule: advance_ref_idx.induct)
  case (1 x q ref_idx)
  show ?case
  proof (cases "ref_idx < length x \<and> x ! ref_idx \<le> q")
    case True
    then have step: "advance_ref_idx x q ref_idx = advance_ref_idx x q (Suc ref_idx)"
      by (subst advance_ref_idx.simps) simp
    with 1 True show ?thesis by simp
  next
    case False
    then have stop: "advance_ref_idx x q ref_idx = ref_idx"
      by (subst advance_ref_idx.simps) auto
    with "1.prems" False show ?thesis by auto
  qed
qed

text \<open>A cursor that starts no further than a fresh scan would get ends where that scan ends.\<close>

lemma advance_from_behind:
  "s \<le> c \<Longrightarrow> c \<le> advance_ref_idx x q s \<Longrightarrow> advance_ref_idx x q c = advance_ref_idx x q s"
proof (induction x q s rule: advance_ref_idx.induct)
  case (1 x q s)
  show ?case
  proof (cases "s < length x \<and> x ! s \<le> q")
    case True
    then have step: "advance_ref_idx x q s = advance_ref_idx x q (Suc s)"
      by (subst advance_ref_idx.simps) simp
    show ?thesis
    proof (cases "c = s")
      case True
      then show ?thesis by simp
    next
      case False
      with "1.prems" have "Suc s \<le> c" by simp
      with 1 True step show ?thesis by simp
    qed
  next
    case False
    then have "advance_ref_idx x q s = s"
      by (subst advance_ref_idx.simps) auto
    with "1.prems" show ?thesis by simp
  qed
qed

lemma advance_mono:
  "q \<le> q' \<Longrightarrow> advance_ref_idx x q c \<le> advance_ref_idx x q' c"
proof (induction x q c rule: advance_ref_idx.induct)
  case (1 x q c)
  show ?case
  proof (cases "c < length x \<and> x ! c \<le> q")
    case True
    with "1.prems" have T': "c < length x \<and> x ! c \<le> q'" by simp
    have "advance_ref_idx x q c = advance_ref_idx x q (Suc c)"
      using True by (subst advance_ref_idx.simps) simp
    moreover have "advance_ref_idx x q' c = advance_ref_idx x q' (Suc c)"
      using T' by (subst advance_ref_idx.simps) simp
    ultimately show ?thesis using 1 True by simp
  next
    case False
    then have "advance_ref_idx x q c = c"
      by (subst advance_ref_idx.simps) auto
    then show ?thesis by (simp add: advance_ge)
  qed
qed

section \<open>The resampling loop\<close>

lemma resample_loop_zero:
  "advance_ref_idx x q c = 0 \<Longrightarrow>
   resample_loop x y (q # xi) c = emit (0, 0) (resample_loop x y xi 0)"
  by (simp add: Let_def)

lemma resample_loop_pos:
  "advance_ref_idx x q c \<noteq> 0 \<Longrightarrow>
   resample_loop x y (q # xi) c =
     (case rd y (advance_ref_idx x q c - 1) of
        Inl e \<Rightarrow> Inl e
      | Inr s \<Rightarrow> emit s (resample_loop x y xi (advance_ref_idx x q c - 1)))"
  by (simp add: Let_def)

lemma resample_loop_zeroE:
  assumes "resample_loop x y (q # xi) c = Inr out" and "advance_ref_idx x q c = 0"
  obtains tl where "resample_loop x y xi 0 = Inr tl" and "out = (0, 0) # tl"
  using assms by (auto simp: resample_loop_zero emit_Inr_iff)

lemma resample_loop_posE:
  assumes "resample_loop x y (q # xi) c = Inr out" and "advance_ref_idx x q c \<noteq> 0"
  obtains tl where "advance_ref_idx x q c - 1 < length y"
    and "resample_loop x y xi (advance_ref_idx x q c - 1) = Inr tl"
    and "out = y ! (advance_ref_idx x q c - 1) # tl"
proof -
  define r where "r = advance_ref_idx x q c - 1"
  from assms have run:
    "(case rd y r of Inl e \<Rightarrow> Inl e | Inr s \<Rightarrow> emit s (resample_loop x y xi r)) = Inr out"
    unfolding r_def using resample_loop_pos [OF assms(2), of y xi] by simp
  show thesis
  proof (cases "rd y r")
    case (Inl e)
    with run show ?thesis by simp
  next
    case (Inr s)
    then have s: "r < length y" "s = y ! r" by (simp_all add: rd_Inr_iff)
    from run Inr have "emit s (resample_loop x y xi r) = Inr out" by simp
    then obtain tl where "resample_loop x y xi r = Inr tl" and "out = s # tl"
      by (auto simp: emit_Inr_iff)
    with s show ?thesis unfolding r_def by (intro that) simp_all
  qed
qed

declare resample_loop.simps(2) [simp del]

lemma resample_loop_length:
  "resample_loop x y xi c = Inr out \<Longrightarrow> length out = length xi"
proof (induction xi arbitrary: c out)
  case Nil
  then show ?case by simp
next
  case (Cons q xi)
  show ?case
  proof (cases "advance_ref_idx x q c = 0")
    case True
    with Cons.prems obtain tl where "resample_loop x y xi 0 = Inr tl" and "out = (0, 0) # tl"
      by (rule resample_loop_zeroE)
    with Cons.IH show ?thesis by simp
  next
    case False
    with Cons.prems obtain tl where "resample_loop x y xi (advance_ref_idx x q c - 1) = Inr tl"
      and "out = y ! (advance_ref_idx x q c - 1) # tl"
      by (rule resample_loop_posE)
    with Cons.IH show ?thesis by simp
  qed
qed

lemma resample_loop_total:
  "length y = length x \<Longrightarrow> c \<le> length x \<Longrightarrow> \<exists>out. resample_loop x y xi c = Inr out"
proof (induction xi arbitrary: c)
  case Nil
  then show ?case by simp
next
  case (Cons q xi)
  let ?r = "advance_ref_idx x q c"
  have r_le: "?r \<le> length x" using Cons.prems by (simp add: advance_le_length)
  show ?case
  proof (cases "?r = 0")
    case True
    from Cons.IH [of 0] Cons.prems obtain tl where "resample_loop x y xi 0 = Inr tl" by auto
    with True show ?thesis by (simp add: resample_loop_zero emit_def)
  next
    case False
    with r_le Cons.prems have in_y: "?r - 1 < length y" by simp
    from r_le have "?r - 1 \<le> length x" by simp
    with Cons.IH [of "?r - 1"] Cons.prems obtain tl where "resample_loop x y xi (?r - 1) = Inr tl"
      by auto
    with False in_y show ?thesis by (simp add: resample_loop_pos emit_def rd_in)
  qed
qed

lemma resample_loop_copies:
  "resample_loop x y xi c = Inr out \<Longrightarrow> i < length out \<Longrightarrow>
   out ! i = (0, 0) \<or> (\<exists>j<length y. out ! i = y ! j)"
proof (induction xi arbitrary: c out i)
  case Nil
  then show ?case by simp
next
  case (Cons q xi)
  let ?r = "advance_ref_idx x q c"
  show ?case
  proof (cases "?r = 0")
    case True
    with Cons.prems(1) obtain tl where tl: "resample_loop x y xi 0 = Inr tl" and out: "out = (0, 0) # tl"
      by (rule resample_loop_zeroE)
    show ?thesis
    proof (cases i)
      case 0
      with out show ?thesis by simp
    next
      case (Suc i')
      with Cons.prems out have "i' < length tl" by simp
      from Cons.IH [OF tl this] Suc out show ?thesis by simp
    qed
  next
    case False
    with Cons.prems(1) obtain tl where s: "?r - 1 < length y"
      and tl: "resample_loop x y xi (?r - 1) = Inr tl" and out: "out = y ! (?r - 1) # tl"
      by (rule resample_loop_posE)
    show ?thesis
    proof (cases i)
      case 0
      with out s show ?thesis by auto
    next
      case (Suc i')
      with Cons.prems out have "i' < length tl" by simp
      from Cons.IH [OF tl this] Suc out show ?thesis by simp
    qed
  qed
qed

text \<open>
  The cursor lemma: at a position whose query value no earlier query value exceeds,
  the loop writes what a scan from cursor 0 would have found.
\<close>

lemma resample_loop_nth:
  "resample_loop x y xi c = Inr out \<Longrightarrow> i < length xi \<Longrightarrow>
   c \<le> advance_ref_idx x (xi ! i) 0 \<Longrightarrow> \<forall>k<i. xi ! k \<le> xi ! i \<Longrightarrow>
   out ! i = fresh_value x y (xi ! i)"
proof (induction xi arbitrary: c out i)
  case Nil
  then show ?case by simp
next
  case (Cons q xi)
  let ?r = "advance_ref_idx x q c"
  show ?case
  proof (cases i)
    case 0
    with Cons.prems(3) have "c \<le> advance_ref_idx x q 0" by simp
    with advance_from_behind [of 0 c x q] have r: "?r = advance_ref_idx x q 0" by simp
    show ?thesis
    proof (cases "?r = 0")
      case True
      with Cons.prems(1) obtain tl where "out = (0, 0) # tl" by (rule resample_loop_zeroE)
      then have "out ! 0 = (0, 0)" by simp
      moreover from True r have "advance_ref_idx x q 0 = 0" by simp
      ultimately show ?thesis using 0 by (simp add: fresh_value_def)
    next
      case False
      with Cons.prems(1) obtain tl where "out = y ! (?r - 1) # tl" by (rule resample_loop_posE)
      then have "out ! 0 = y ! (?r - 1)" by simp
      moreover from False r have "advance_ref_idx x q 0 \<noteq> 0" by simp
      ultimately show ?thesis using 0 r by (simp add: fresh_value_def)
    qed
  next
    case (Suc i')
    let ?q' = "xi ! i'"
    from Suc Cons.prems(2) have i': "i' < length xi" by simp
    from Suc Cons.prems(3) have c: "c \<le> advance_ref_idx x ?q' 0" by simp
    have "0 < i" using Suc by simp
    with Cons.prems(4) have "(q # xi) ! 0 \<le> (q # xi) ! i" by blast
    with Suc have q: "q \<le> ?q'" by simp
    have earlier: "\<forall>k<i'. xi ! k \<le> ?q'"
    proof (intro allI impI)
      fix k assume "k < i'"
      then have "Suc k < i" using Suc by simp
      with Cons.prems(4) have "(q # xi) ! Suc k \<le> (q # xi) ! i" by blast
      with Suc show "xi ! k \<le> ?q'" by simp
    qed
    have "?r \<le> advance_ref_idx x ?q' c" using q by (rule advance_mono)
    also have "\<dots> = advance_ref_idx x ?q' 0" using advance_from_behind [of 0 c x ?q'] c by simp
    finally have r: "?r \<le> advance_ref_idx x ?q' 0" .
    then have r1: "?r - 1 \<le> advance_ref_idx x ?q' 0" by simp
    show ?thesis
    proof (cases "?r = 0")
      case True
      with Cons.prems(1) obtain tl where tl: "resample_loop x y xi 0 = Inr tl" and out: "out = (0, 0) # tl"
        by (rule resample_loop_zeroE)
      have "0 \<le> advance_ref_idx x ?q' 0" by simp
      with tl i' have "tl ! i' = fresh_value x y ?q'" using earlier by (rule Cons.IH)
      with out Suc show ?thesis by simp
    next
      case False
      with Cons.prems(1) obtain tl where tl: "resample_loop x y xi (?r - 1) = Inr tl"
        and out: "out = y ! (?r - 1) # tl"
        by (rule resample_loop_posE)
      from Cons.IH [OF tl i' r1 earlier] have "tl ! i' = fresh_value x y ?q'" .
      with out Suc show ?thesis by simp
    qed
  qed
qed

lemma advance_sorted_greatest:
  assumes "sorted x" and "j < length x" and "x ! j \<le> q"
    and "\<forall>k<length x. x ! k \<le> q \<longrightarrow> k \<le> j"
  shows "advance_ref_idx x q 0 = Suc j"
proof -
  let ?r = "advance_ref_idx x q 0"
  have r_le: "?r \<le> length x" by (simp add: advance_le_length)
  have "j < ?r"
  proof (rule ccontr)
    assume "\<not> j < ?r"
    then have rj: "?r \<le> j" by simp
    with assms(2) have "?r < length x" by simp
    then have "q < x ! ?r" by (rule advance_stop)
    moreover from assms(1) rj assms(2) have "x ! ?r \<le> x ! j" by (rule sorted_nth_mono)
    ultimately show False using assms(3) by simp
  qed
  moreover have "?r \<le> Suc j"
  proof (cases "?r = 0")
    case True
    then show ?thesis by simp
  next
    case False
    then have "?r - 1 < ?r" by simp
    with advance_passed [of 0 "?r - 1" x q] have "?r - 1 < length x \<and> x ! (?r - 1) \<le> q" by simp
    with assms(4) have "?r - 1 \<le> j" by blast
    then show ?thesis by simp
  qed
  ultimately show ?thesis by simp
qed

lemma advance_none:
  assumes "\<forall>k<length x. q < x ! k"
  shows "advance_ref_idx x q 0 = 0"
proof (cases "0 < length x")
  case True
  with assms have "q < x ! 0" by blast
  then have "\<not> x ! 0 \<le> q" by simp
  then show ?thesis by (subst advance_ref_idx.simps) simp
next
  case False
  then show ?thesis by (subst advance_ref_idx.simps) simp
qed

section \<open>Bin lookup\<close>

lemma size_t_dec_pos: "0 < n \<Longrightarrow> size_t_dec n = n - 1"
  by (simp add: size_t_dec_def)

text \<open>
  The bisection keeps an entry less than the value just left of the range and an entry
  not less than it just right of the range, whatever the order of the entries.
\<close>

lemma lower_bound_loop_inv:
  "first + len \<le> length a \<Longrightarrow>
   first = 0 \<or> a ! (first - 1) < val \<Longrightarrow>
   first + len = length a \<or> \<not> a ! (first + len) < val \<Longrightarrow>
   first \<le> lower_bound_loop a val first len \<and>
   lower_bound_loop a val first len \<le> first + len \<and>
   (lower_bound_loop a val first len = 0 \<or> a ! (lower_bound_loop a val first len - 1) < val) \<and>
   (lower_bound_loop a val first len = length a \<or> \<not> a ! lower_bound_loop a val first len < val)"
proof (induction a val first len rule: lower_bound_loop.induct)
  case (1 a val first len)
  show ?case
  proof (cases "0 < len")
    case False
    then have "lower_bound_loop a val first len = first"
      by (subst lower_bound_loop.simps) simp
    with "1.prems" False show ?thesis by simp
  next
    case True
    let ?mid = "first + len div 2"
    show ?thesis
    proof (cases "a ! ?mid < val")
      case less: True
      let ?f = "?mid + 1" and ?l = "len - len div 2 - 1"
      have step: "lower_bound_loop a val first len = lower_bound_loop a val ?f ?l"
        using True less by (subst lower_bound_loop.simps) simp
      have sum: "?f + ?l = first + len" using True by simp
      have p1: "?f + ?l \<le> length a" using sum "1.prems"(1) by simp
      have p2: "?f = 0 \<or> a ! (?f - 1) < val" using less by simp
      have p3: "?f + ?l = length a \<or> \<not> a ! (?f + ?l) < val"
        using "1.prems"(3) unfolding sum .
      from "1.IH"(1) [OF True less p1 p2 p3] show ?thesis
        unfolding step sum by auto
    next
      case geq: False
      have step: "lower_bound_loop a val first len = lower_bound_loop a val first (len div 2)"
        using True geq by (subst lower_bound_loop.simps) simp
      have p1: "first + len div 2 \<le> length a" using "1.prems"(1) by simp
      have p3: "first + len div 2 = length a \<or> \<not> a ! (first + len div 2) < val"
        using geq by simp
      from "1.IH"(2) [OF True geq p1 "1.prems"(2) p3] show ?thesis
        unfolding step by auto
    qed
  qed
qed

lemma lower_bound_props:
  "lower_bound a val \<le> length a \<and>
   (lower_bound a val = 0 \<or> a ! (lower_bound a val - 1) < val) \<and>
   (lower_bound a val = length a \<or> \<not> a ! lower_bound a val < val)"
  using lower_bound_loop_inv [of 0 "length a" a val] by (simp add: lower_bound_def)

lemma lookup_idx_empty: "lookup_idx [] q = Inl OutOfBounds"
  by (simp add: lookup_idx_def rd_def)

lemma lookup_idx_first:
  "breaks \<noteq> [] \<Longrightarrow> q \<le> breaks ! 0 \<Longrightarrow> lookup_idx breaks q = Inr 0"
  by (simp add: lookup_idx_def rd_def)

lemma lookup_idx_last:
  "breaks \<noteq> [] \<Longrightarrow> breaks ! 0 < q \<Longrightarrow> breaks ! (length breaks - 1) < q \<Longrightarrow>
   lookup_idx breaks q = Inr (length breaks - 1)"
  by (simp add: lookup_idx_def rd_def size_t_dec_pos)

lemma lookup_idx_interior:
  assumes "breaks \<noteq> []" and "breaks ! 0 < q" and "q \<le> breaks ! (length breaks - 1)"
  shows "\<exists>i. lookup_idx breaks q = Inr i \<and> Suc i < length breaks \<and>
             breaks ! i < q \<and> q \<le> breaks ! Suc i"
proof -
  let ?lb = "lower_bound breaks q"
  from lower_bound_props [of breaks q]
  have le: "?lb \<le> length breaks"
    and left: "?lb = 0 \<or> breaks ! (?lb - 1) < q"
    and right: "?lb = length breaks \<or> \<not> breaks ! ?lb < q"
    by simp_all
  have pos: "0 < ?lb"
  proof (rule ccontr)
    assume "\<not> 0 < ?lb"
    then have z: "?lb = 0" by simp
    with assms(1) right have "\<not> breaks ! 0 < q" by simp
    with assms(2) show False by simp
  qed
  have lt: "?lb < length breaks"
  proof (rule ccontr)
    assume "\<not> ?lb < length breaks"
    with le have e: "?lb = length breaks" by simp
    with left pos have "breaks ! (length breaks - 1) < q" by simp
    with assms(3) show False by simp
  qed
  from lt right have r: "q \<le> breaks ! ?lb" by simp
  from pos left have l: "breaks ! (?lb - 1) < q" by simp
  have "lookup_idx breaks q = Inr (?lb - 1)"
    using assms pos by (simp add: lookup_idx_def rd_def size_t_dec_pos)
  moreover have "Suc (?lb - 1) = ?lb" using pos by simp
  ultimately show ?thesis using lt r l by auto
qed

text \<open>In a non-decreasing axis the interval of the specification is unique.\<close>

lemma interval_spec_unique:
  assumes "sorted axis" and "interval_spec axis q i" and "interval_spec axis q j"
  shows "i = j"
proof (cases "q \<le> axis ! 0")
  case True
  with assms show ?thesis by (simp add: interval_spec_def)
next
  case False
  with assms(2) have i: "Suc i < length axis" "axis ! i < q" "q \<le> axis ! Suc i"
    by (simp_all add: interval_spec_def)
  from False assms(3) have j: "Suc j < length axis" "axis ! j < q" "q \<le> axis ! Suc j"
    by (simp_all add: interval_spec_def)
  have "\<not> i < j"
  proof
    assume "i < j"
    then have "Suc i \<le> j" by simp
    with assms(1) j(1) have "axis ! Suc i \<le> axis ! j" by (simp add: sorted_nth_mono)
    with i(3) j(2) show False by simp
  qed
  moreover have "\<not> j < i"
  proof
    assume "j < i"
    then have "Suc j \<le> i" by simp
    with assms(1) i(1) have "axis ! Suc j \<le> axis ! i" by (simp add: sorted_nth_mono)
    with j(3) i(2) show False by simp
  qed
  ultimately show ?thesis by simp
qed

section \<open>Polynomial evaluation\<close>

lemma flat_index_bound:
  fixes r c rows cols :: nat
  assumes "r < rows" and "c < cols"
  shows "r + c * rows < rows * cols"
proof -
  have "r + c * rows < rows + c * rows" using assms(1) by simp
  also have "\<dots> = Suc c * rows" by simp
  also have "\<dots> \<le> cols * rows" using assms(2) by (intro mult_le_mono1) simp
  finally show ?thesis by (simp add: mult.commute)
qed

lemma length_column_major: "length (column_major table rows cols) = rows * cols"
  by (simp add: column_major_def)

lemma column_major_nth:
  assumes "r < rows" and "c < cols"
  shows "column_major table rows cols ! (r + c * rows) = table ! r ! c"
proof -
  have "r + c * rows < rows * cols" using assms by (rule flat_index_bound)
  then have "column_major table rows cols ! (r + c * rows) =
             table ! ((r + c * rows) mod rows) ! ((r + c * rows) div rows)"
    by (simp add: column_major_def)
  also have "(r + c * rows) mod rows = r" using assms(1) by simp
  also have "(r + c * rows) div rows = c" using assms(1) by simp
  finally show ?thesis .
qed

lemma row_of_column_major:
  assumes "i < rows" and "length (table ! i) = cols"
  shows "row_of (column_major table rows cols) rows cols i = table ! i"
proof (rule nth_equalityI)
  show "length (row_of (column_major table rows cols) rows cols i) = length (table ! i)"
    using assms(2) by (simp add: row_of_def)
next
  fix c assume "c < length (row_of (column_major table rows cols) rows cols i)"
  then have c: "c < cols" by (simp add: row_of_def)
  then show "row_of (column_major table rows cols) rows cols i ! c = table ! i ! c"
    using assms(1) by (simp add: row_of_def column_major_nth)
qed

text \<open>The coefficient loop, entered at column \<open>k\<close>, when all its reads are in bounds.\<close>

lemma horner_loop_in_bounds:
  "\<forall>c<order. lookup + c * np < length coefs \<Longrightarrow> k \<le> order \<Longrightarrow>
   horner_loop coefs np order lookup d k v =
     Inr (horner_spec_from v d (drop k (row_of coefs np order lookup)))"
proof (induction coefs np order lookup d k v rule: horner_loop.induct)
  case (1 coefs np order lookup d k v)
  let ?row = "row_of coefs np order lookup"
  show ?case
  proof (cases "k < order")
    case False
    with "1.prems" have "k = order" by simp
    then have "drop k ?row = []" by (simp add: row_of_def)
    moreover have "horner_loop coefs np order lookup d k v = Inr v"
      using False by (subst horner_loop.simps) simp
    ultimately show ?thesis by simp
  next
    case True
    with "1.prems"(1) have inb: "lookup + k * np < length coefs" by blast
    then have rdk: "rd coefs (lookup + k * np) = Inr (coefs ! (lookup + k * np))"
      by (rule rd_in)
    have step: "horner_loop coefs np order lookup d k v =
                horner_loop coefs np order lookup d (k + 1) (d * v + coefs ! (lookup + k * np))"
      using True rdk by (subst horner_loop.simps) simp
    have "k + 1 \<le> order" using True by simp
    with "1.IH" [OF True rdk "1.prems"(1)]
    have ih: "horner_loop coefs np order lookup d (k + 1) (d * v + coefs ! (lookup + k * np)) =
              Inr (horner_spec_from (d * v + coefs ! (lookup + k * np)) d (drop (k + 1) ?row))"
      by simp
    have "k < length ?row" using True by (simp add: row_of_def)
    then have "drop k ?row = ?row ! k # drop (Suc k) ?row" by (simp add: Cons_nth_drop_Suc)
    moreover have "?row ! k = coefs ! (lookup + k * np)" using True by (simp add: row_of_def)
    ultimately have "horner_spec_from v d (drop k ?row) =
                     horner_spec_from (v * d + coefs ! (lookup + k * np)) d (drop (k + 1) ?row)"
      by simp
    with step ih show ?thesis by (simp add: mult.commute)
  qed
qed

text \<open>The coefficient loop ends the run as soon as one of its reads is out of bounds.\<close>

lemma horner_loop_out_of_bounds:
  "k \<le> c \<Longrightarrow> c < order \<Longrightarrow> length coefs \<le> lookup + c * np \<Longrightarrow>
   horner_loop coefs np order lookup d k v = Inl OutOfBounds"
proof (induction coefs np order lookup d k v rule: horner_loop.induct)
  case (1 coefs np order lookup d k v)
  from "1.prems" have k: "k < order" by simp
  show ?case
  proof (cases "rd coefs (lookup + k * np)")
    case (Inl e)
    then have "e = OutOfBounds" by (simp add: rd_Inl_iff)
    with Inl k show ?thesis by (subst horner_loop.simps) simp
  next
    case (Inr a)
    then have "lookup + k * np < length coefs" by (simp add: rd_Inr_iff)
    with "1.prems"(3) have "k \<noteq> c" by auto
    with "1.prems"(1) have "k + 1 \<le> c" by simp
    from "1.IH" [OF k Inr this "1.prems"(2,3)]
    have "horner_loop coefs np order lookup d (k + 1) (d * v + a) = Inl OutOfBounds" .
    with Inr k show ?thesis by (subst horner_loop.simps) simp
  qed
qed

lemma eval_bin_in_bounds:
  assumes "lookup < length breaks" and "lookup < np" and "length coefs = np * order"
    and "1 \<le> order"
  shows "eval_bin breaks coefs np order lookup q =
           Inr (horner_spec (row_of coefs np order lookup) (q - breaks ! lookup))"
proof -
  have all: "\<forall>c<order. lookup + c * np < length coefs"
    using assms(2,3) by (simp add: flat_index_bound)
  with assms(4) have "lookup + 0 * np < length coefs" by (metis less_eq_Suc_le One_nat_def)
  then have l0: "lookup < length coefs" by simp
  have "horner_loop coefs np order lookup (q - breaks ! lookup) 1 (coefs ! lookup) =
        Inr (horner_spec_from (coefs ! lookup) (q - breaks ! lookup)
               (drop 1 (row_of coefs np order lookup)))"
    using all assms(4) by (rule horner_loop_in_bounds)
  moreover have "row_of coefs np order lookup ! 0 = coefs ! lookup"
    using assms(4) by (simp add: row_of_def)
  ultimately show ?thesis
    using assms(1) l0 by (simp add: eval_bin_def rd_in horner_spec_def)
qed

text \<open>
  Entered with the row index \<open>num_polynomials\<close>, one past the last row, the evaluation
  always reads behind the end of the coefficient buffer.
\<close>

lemma eval_bin_past_last_row:
  assumes "length coefs = np * order"
  shows "eval_bin breaks coefs np order np q = Inl OutOfBounds"
proof (cases "rd breaks np")
  case (Inl e)
  then have "e = OutOfBounds" by (simp add: rd_Inl_iff)
  with Inl show ?thesis by (simp add: eval_bin_def)
next
  case b: (Inr b)
  show ?thesis
  proof (cases "rd coefs np")
    case (Inl e)
    then have "e = OutOfBounds" by (simp add: rd_Inl_iff)
    with Inl b show ?thesis by (simp add: eval_bin_def)
  next
    case (Inr c0)
    then have "np < np * order" using assms by (simp add: rd_Inr_iff)
    then have o2: "2 \<le> order" by (cases order) (auto simp: Suc_le_eq)
    then have "np + (order - 1) * np = np * order"
      by (cases order) (simp_all add: mult.commute)
    then have "length coefs \<le> np + (order - 1) * np" using assms by simp
    moreover have "1 \<le> order - 1" "order - 1 < order" using o2 by simp_all
    ultimately have "horner_loop coefs np order np (q - b) 1 c0 = Inl OutOfBounds"
      by (intro horner_loop_out_of_bounds [where c = "order - 1"])
    with Inr b show ?thesis by (simp add: eval_bin_def)
  qed
qed

lemma ppvalFastCore_length:
  "ppvalFastCore breaks coefs np order xx = Inr out \<Longrightarrow> length out = length xx"
proof (induction xx arbitrary: out)
  case Nil
  then show ?case by simp
next
  case (Cons x xx)
  then show ?case
    by (cases "ppval_point breaks coefs np order x") (auto simp: emit_Inr_iff)
qed

lemma ppvalFastCore_nth:
  "ppvalFastCore breaks coefs np order xx = Inr out \<Longrightarrow> i < length xx \<Longrightarrow>
   ppval_point breaks coefs np order (xx ! i) = Inr (out ! i)"
proof (induction xx arbitrary: out i)
  case Nil
  then show ?case by simp
next
  case (Cons x xx)
  from Cons.prems(1) obtain v tl where v: "ppval_point breaks coefs np order x = Inr v"
    and tl: "ppvalFastCore breaks coefs np order xx = Inr tl" and out: "out = v # tl"
    by (cases "ppval_point breaks coefs np order x") (auto simp: emit_Inr_iff)
  show ?case
  proof (cases i)
    case 0
    with v out show ?thesis by simp
  next
    case (Suc i')
    with Cons.prems(2) have "i' < length xx" by simp
    with tl have "ppval_point breaks coefs np order (xx ! i') = Inr (tl ! i')" by (rule Cons.IH)
    with Suc out show ?thesis by simp
  qed
qed

lemma ppvalFastCore_total:
  "\<forall>q\<in>set xx. \<exists>v. ppval_point breaks coefs np order q = Inr v \<Longrightarrow>
   \<exists>out. ppvalFastCore breaks coefs np order xx = Inr out"
proof (induction xx)
  case Nil
  then show ?case by simp
next
  case (Cons x xx)
  then obtain v where "ppval_point breaks coefs np order x = Inr v" by auto
  moreover from Cons obtain tl where "ppvalFastCore breaks coefs np order xx = Inr tl" by auto
  ultimately show ?case by (simp add: emit_def)
qed

section \<open>The step resampler at one position\<close>

lemma advance_sorted_spec:
  assumes "sorted x" and "k < length x" and "x ! k \<le> q"
  shows "0 < advance_ref_idx x q 0 \<and> advance_ref_idx x q 0 - 1 < length x \<and>
         x ! (advance_ref_idx x q 0 - 1) \<le> q \<and>
         (\<forall>m<length x. x ! m \<le> q \<longrightarrow> m \<le> advance_ref_idx x q 0 - 1)"
proof -
  let ?r = "advance_ref_idx x q 0"
  have r_le: "?r \<le> length x" by (simp add: advance_le_length)
  have beyond: "m < ?r" if m: "m < length x" "x ! m \<le> q" for m
  proof (rule ccontr)
    assume "\<not> m < ?r"
    then have rm: "?r \<le> m" by simp
    with m(1) have "?r < length x" by simp
    then have "q < x ! ?r" by (rule advance_stop)
    moreover from assms(1) rm m(1) have "x ! ?r \<le> x ! m" by (rule sorted_nth_mono)
    ultimately show False using m(2) by simp
  qed
  from beyond [OF assms(2,3)] have pos: "0 < ?r" by simp
  then have "?r - 1 < ?r" by simp
  with advance_passed [of 0 "?r - 1" x q] have "?r - 1 < length x \<and> x ! (?r - 1) \<le> q" by simp
  moreover have "\<forall>m<length x. x ! m \<le> q \<longrightarrow> m \<le> ?r - 1"
  proof (intro allI impI)
    fix m assume "m < length x" "x ! m \<le> q"
    then have "m < ?r" by (rule beyond)
    then show "m \<le> ?r - 1" by simp
  qed
  ultimately show ?thesis using pos by simp
qed

text \<open>The gateway run as a whole, and its value at one position.\<close>

lemma nonUniformResampleFast_run:
  assumes "length y = length x"
  shows "\<exists>out. nonUniformResampleFast x y xi = Inr out \<and> length out = length xi"
proof -
  from resample_loop_total [OF assms, of 0 xi] obtain out where "resample_loop x y xi 0 = Inr out"
    by auto
  moreover from this have "length out = length xi" by (rule resample_loop_length)
  ultimately show ?thesis using assms by (simp add: nonUniformResampleFast_def)
qed

lemma nonUniformResampleFast_nth:
  assumes "nonUniformResampleFast x y xi = Inr out" and "i < length xi"
    and "\<forall>k<i. xi ! k \<le> xi ! i"
  shows "out ! i = fresh_value x y (xi ! i)"
proof -
  from assms(1) have "resample_loop x y xi 0 = Inr out"
    by (simp add: nonUniformResampleFast_def split: if_splits)
  moreover have "0 \<le> advance_ref_idx x (xi ! i) 0" by simp
  ultimately show ?thesis using assms(2) assms(3) by (intro resample_loop_nth)
qed

lemma sorted_earlier: "sorted xi \<Longrightarrow> i < length xi \<Longrightarrow> \<forall>k<i. xi ! k \<le> xi ! i"
  by (simp add: sorted_nth_mono)

section \<open>Claims about the step resampler\<close>

text \<open>
  C2, as stated, for query points in any order: with a non-decreasing axis, the output
  at a query \<open>q\<close> that some axis entry does not exceed is the sample at the largest
  index \<open>j\<close> with \<open>Axis[j] \<le> q\<close>. The run below refutes it: after the query 5 the
  cursor stands at index 2, so the query 0 that follows is given \<open>Samples[1]\<close>,
  while the largest index with \<open>Axis[j] \<le> 0\<close> is 0.
\<close>

theorem C2_counterexample:
  "sorted [0, 1, 2 :: real] \<and>
   nonUniformResampleFast [0, 1, 2] [(1, 0), (2, 0), (3, 0)] [5, 0] = Inr [(3, 0), (2, 0)] \<and>
   [0, 1, 2 :: real] ! 0 \<le> [5, 0] ! 1 \<and> \<not> [0, 1, 2 :: real] ! 1 \<le> [5, 0] ! 1 \<and>
   \<not> [0, 1, 2 :: real] ! 2 \<le> [5, 0] ! 1 \<and>
   [(3, 0), (2, 0) :: sample] ! 1 \<noteq> [(1, 0), (2, 0), (3, 0)] ! 0"
  by code_simp

text \<open>
  C2, amended: with a non-decreasing axis and samples of the same length, at every
  position \<open>i\<close> whose query value no earlier query value of the batch exceeds, the
  output is \<open>Samples[j]\<close>, where \<open>j\<close> is the largest index with
  \<open>Axis[j] \<le> QueryPoints[i]\<close>.
\<close>

theorem C2_step_resampler_found:
  assumes "sorted x" and "length y = length x" and "i < length xi"
    and "\<forall>k<i. xi ! k \<le> xi ! i"
    and "j < length x" and "x ! j \<le> xi ! i"
    and "\<forall>k<length x. x ! k \<le> xi ! i \<longrightarrow> k \<le> j"
  shows "\<exists>out. nonUniformResampleFast x y xi = Inr out \<and> length out = length xi \<and>
               out ! i = y ! j"
proof -
  from nonUniformResampleFast_run [OF assms(2), of xi] obtain out
    where out: "nonUniformResampleFast x y xi = Inr out" "length out = length xi" by auto
  from out(1) assms(3,4) have "out ! i = fresh_value x y (xi ! i)"
    by (rule nonUniformResampleFast_nth)
  moreover from assms(1,5,6,7) have "advance_ref_idx x (xi ! i) 0 = Suc j"
    by (rule advance_sorted_greatest)
  ultimately have "out ! i = y ! j" by (simp add: fresh_value_def)
  with out show ?thesis by simp
qed

text \<open>C2, amended, on the boundary scenario of the specification, at the query 0.5.\<close>

theorem C2_step_resampler_found_witness:
  "\<exists>out. nonUniformResampleFast [0, 1, 2] [(1, 0), (2, 0), (3, 0)] [-1, 0, 1/2, 2, 5] = Inr out \<and>
         length out = 5 \<and> out ! 2 = (1, 0)"
proof -
  have h1: "sorted [0, 1, 2 :: real]" by simp
  have h2: "length [(1, 0), (2, 0), (3, 0) :: sample] = length [0, 1, 2 :: real]" by simp
  have h3: "2 < length [-1, 0, 1/2, 2, 5 :: real]" by simp
  have h4: "\<forall>k<2. [-1, 0, 1/2, 2, 5 :: real] ! k \<le> [-1, 0, 1/2, 2, 5] ! 2"
    by (simp add: less_Suc_eq numeral_2_eq_2)
  have h5: "0 < length [0, 1, 2 :: real]" by simp
  have h6: "[0, 1, 2 :: real] ! 0 \<le> [-1, 0, 1/2, 2, 5] ! 2" by simp
  have h7: "\<forall>k<length [0, 1, 2 :: real]. [0, 1, 2 :: real] ! k \<le> [-1, 0, 1/2, 2, 5] ! 2 \<longrightarrow> k \<le> 0"
    by (simp add: less_Suc_eq)
  from C2_step_resampler_found [OF h1 h2 h3 h4 h5 h6 h7] show ?thesis by auto
qed

text \<open>
  C4, as stated, for query points in any order: a query that is strictly less than every
  axis entry is given \<open>(0, 0)\<close> wherever it stands in the batch. The run below refutes
  it: after the query 5 the cursor stands at index 2, the query -1 leaves it there, and
  since the cursor is not 0 the output is \<open>Samples[1]\<close>.
\<close>

theorem C4_counterexample:
  "sorted [0, 1, 2 :: real] \<and>
   nonUniformResampleFast [0, 1, 2] [(1, 0), (2, 0), (3, 0)] [5, -1] = Inr [(3, 0), (2, 0)] \<and>
   [5, -1 :: real] ! 1 < [0, 1, 2] ! 0 \<and> [5, -1 :: real] ! 1 < [0, 1, 2] ! 1 \<and>
   [5, -1 :: real] ! 1 < [0, 1, 2] ! 2 \<and>
   [(3, 0), (2, 0) :: sample] ! 1 \<noteq> (0, 0)"
  by code_simp

text \<open>
  C4, amended: for samples of the same length as the axis (the empty axis included), at
  every position \<open>i\<close> whose query value no earlier query value of the batch exceeds
  and which is strictly less than every axis entry, the output is \<open>(0, 0)\<close>; the run
  is not aborted and writes one output for every query point.
\<close>

theorem C4_step_resampler_zero_fill:
  assumes "length y = length x" and "i < length xi"
    and "\<forall>k<i. xi ! k \<le> xi ! i"
    and "\<forall>k<length x. xi ! i < x ! k"
  shows "\<exists>out. nonUniformResampleFast x y xi = Inr out \<and> length out = length xi \<and>
               out ! i = (0, 0)"
proof -
  from nonUniformResampleFast_run [OF assms(1), of xi] obtain out
    where out: "nonUniformResampleFast x y xi = Inr out" "length out = length xi" by auto
  from out(1) assms(2,3) have "out ! i = fresh_value x y (xi ! i)"
    by (rule nonUniformResampleFast_nth)
  moreover from assms(4) have "advance_ref_idx x (xi ! i) 0 = 0" by (rule advance_none)
  ultimately have "out ! i = (0, 0)" by (simp add: fresh_value_def)
  with out show ?thesis by simp
qed

text \<open>C4, amended, on a batch with two queries left of the axis, at the second of them.\<close>

theorem C4_step_resampler_zero_fill_witness:
  "\<exists>out. nonUniformResampleFast [0, 1, 2] [(1, 0), (2, 0), (3, 0)] [-2, -1, 0, 5] = Inr out \<and>
         length out = 4 \<and> out ! 1 = (0, 0)"
proof -
  have h1: "length [(1, 0), (2, 0), (3, 0) :: sample] = length [0, 1, 2 :: real]" by simp
  have h2: "1 < length [-2, -1, 0, 5 :: real]" by simp
  have h3: "\<forall>k<1. [-2, -1, 0, 5 :: real] ! k \<le> [-2, -1, 0, 5] ! 1" by simp
  have h4: "\<forall>k<length [0, 1, 2 :: real]. [-2, -1, 0, 5 :: real] ! 1 < [0, 1, 2] ! k"
    by (simp add: less_Suc_eq)
  from C4_step_resampler_zero_fill [OF h1 h2 h3 h4] show ?thesis by auto
qed

text \<open>
  C8: with a non-decreasing axis, samples of the same length and non-decreasing query
  points, the run writes one output for every query point, and at every position
  \<open>i\<close> the output is \<open>(0, 0)\<close> when the query is strictly less than every axis
  entry, and otherwise \<open>Samples[j]\<close> for the greatest index \<open>j\<close> with
  \<open>Axis[j] \<le> QueryPoints[i]\<close>, which then exists.
\<close>

theorem C8_sorted_queries_convention_A:
  assumes "sorted x" and "length y = length x" and "sorted xi" and "i < length xi"
  shows "\<exists>out. nonUniformResampleFast x y xi = Inr out \<and> length out = length xi \<and>
           ((\<forall>k<length x. xi ! i < x ! k) \<longrightarrow> out ! i = (0, 0)) \<and>
           (\<not> (\<forall>k<length x. xi ! i < x ! k) \<longrightarrow>
              (\<exists>j<length x. x ! j \<le> xi ! i \<and> (\<forall>k<length x. x ! k \<le> xi ! i \<longrightarrow> k \<le> j) \<and>
                 out ! i = y ! j))"
proof -
  let ?q = "xi ! i"
  from nonUniformResampleFast_run [OF assms(2), of xi] obtain out
    where out: "nonUniformResampleFast x y xi = Inr out" "length out = length xi" by auto
  from assms(3,4) have "\<forall>k<i. xi ! k \<le> ?q" by (rule sorted_earlier)
  with out(1) assms(4) have val: "out ! i = fresh_value x y ?q"
    by (rule nonUniformResampleFast_nth)
  have none: "out ! i = (0, 0)" if "\<forall>k<length x. ?q < x ! k"
  proof -
    from that have "advance_ref_idx x ?q 0 = 0" by (rule advance_none)
    with val show ?thesis by (simp add: fresh_value_def)
  qed
  have some: "\<exists>j<length x. x ! j \<le> ?q \<and> (\<forall>k<length x. x ! k \<le> ?q \<longrightarrow> k \<le> j) \<and> out ! i = y ! j"
    if "\<not> (\<forall>k<length x. ?q < x ! k)"
  proof -
    from that obtain k where k: "k < length x" "x ! k \<le> ?q" by (auto simp: not_less)
    let ?j = "advance_ref_idx x ?q 0 - 1"
    from advance_sorted_spec [OF assms(1) k]
    have pos: "0 < advance_ref_idx x ?q 0" and j: "?j < length x" "x ! ?j \<le> ?q"
      and greatest: "\<forall>m<length x. x ! m \<le> ?q \<longrightarrow> m \<le> ?j"
      by simp_all
    from val pos have "out ! i = y ! ?j" by (simp add: fresh_value_def)
    with j greatest show ?thesis by blast
  qed
  from out none some show ?thesis by blast
qed

text \<open>
  C8 on the boundary scenario of the specification: the first query is left of the axis,
  the last one to the right of it.
\<close>

theorem C8_sorted_queries_convention_A_witness:
  "\<exists>out. nonUniformResampleFast [0, 1, 2] [(1, 0), (2, 0), (3, 0)] [-1, 0, 1/2, 2, 5] = Inr out \<and>
         length out = length [-1, 0, 1/2, 2, 5 :: real] \<and> out ! 0 = (0, 0) \<and> out ! 4 = (3, 0)"
proof -
  let ?x = "[0, 1, 2 :: real]" and ?y = "[(1, 0), (2, 0), (3, 0) :: sample]"
  let ?xi = "[-1, 0, 1/2, 2, 5 :: real]"
  have h1: "sorted ?x" by simp
  have h2: "length ?y = length ?x" by simp
  have h3: "sorted ?xi" by simp
  have h4: "4 < length ?xi" by simp
  have h0: "0 < length ?xi" by simp
  from C8_sorted_queries_convention_A [OF h1 h2 h3 h4] obtain out
    where out: "nonUniformResampleFast ?x ?y ?xi = Inr out" and len: "length out = length ?xi"
      and found: "\<not> (\<forall>k<length ?x. ?xi ! 4 < ?x ! k) \<longrightarrow>
        (\<exists>j<length ?x. ?x ! j \<le> ?xi ! 4 \<and> (\<forall>k<length ?x. ?x ! k \<le> ?xi ! 4 \<longrightarrow> k \<le> j) \<and>
           out ! 4 = ?y ! j)"
    by blast
  from C8_sorted_queries_convention_A [OF h1 h2 h3 h0] out
  have zero: "(\<forall>k<length ?x. ?xi ! 0 < ?x ! k) \<longrightarrow> out ! 0 = (0, 0)"
    by auto
  have "\<forall>k<length ?x. ?xi ! 0 < ?x ! k" by (simp add: less_Suc_eq)
  with zero have o0: "out ! 0 = (0, 0)" by blast
  have last: "2 < length ?x \<and> ?x ! 2 \<le> ?xi ! 4" by simp
  then have "\<not> (\<forall>k<length ?x. ?xi ! 4 < ?x ! k)" by (metis not_less)
  with found obtain j where j: "j < length ?x"
    and greatest: "\<forall>k<length ?x. ?x ! k \<le> ?xi ! 4 \<longrightarrow> k \<le> j" and v: "out ! 4 = ?y ! j"
    by blast
  from greatest last have "2 \<le> j" by blast
  with j have "j = 2" by simp
  with v have "out ! 4 = (3, 0)" by simp
  with out len o0 show ?thesis by blast
qed

text \<open>
  C10: for every input, with no assumption on the order of the axis or of the query
  points, every element of the output is \<open>(0, 0)\<close> or equal, in both components, to
  \<open>Samples[j]\<close> for some \<open>j\<close> below the length of the samples; and whenever the
  lengths of axis and samples agree, the run does produce an output, one element for
  every query point.
\<close>

theorem C10_output_is_zero_or_copy:
  "(length y = length x \<longrightarrow>
      (\<exists>out. nonUniformResampleFast x y xi = Inr out \<and> length out = length xi)) \<and>
   (\<forall>out i. nonUniformResampleFast x y xi = Inr out \<and> i < length out \<longrightarrow>
      out ! i = (0, 0) \<or> (\<exists>j<length y. out ! i = y ! j))"
proof (intro conjI impI allI)
  assume "length y = length x"
  then show "\<exists>out. nonUniformResampleFast x y xi = Inr out \<and> length out = length xi"
    by (rule nonUniformResampleFast_run)
next
  fix out i
  assume a: "nonUniformResampleFast x y xi = Inr out \<and> i < length out"
  then have "resample_loop x y xi 0 = Inr out"
    by (simp add: nonUniformResampleFast_def split: if_splits)
  with a show "out ! i = (0, 0) \<or> (\<exists>j<length y. out ! i = y ! j)"
    by (intro resample_loop_copies [of x y xi 0]) simp_all
qed

text \<open>C10 on an axis and a batch of query points that are both out of order.\<close>

theorem C10_output_is_zero_or_copy_witness:
  "nonUniformResampleFast [2, 0, 1] [(1, 7), (2, 8), (3, 9)] [1, 5, 0, -3] =
     Inr [(0, 0), (3, 9), (2, 8), (1, 7)] \<and>
   (\<exists>j<length [(1, 7), (2, 8), (3, 9) :: sample].
      [(0, 0), (3, 9), (2, 8), (1, 7) :: sample] ! 1 = [(1, 7), (2, 8), (3, 9)] ! j)"
proof -
  let ?y = "[(1, 7), (2, 8), (3, 9) :: sample]"
  let ?out = "[(0, 0), (3, 9), (2, 8), (1, 7) :: sample]"
  have run: "nonUniformResampleFast [2, 0, 1] ?y [1, 5, 0, -3] = Inr ?out"
    by code_simp
  have "1 < length ?out" by simp
  with C10_output_is_zero_or_copy [of ?y "[2, 0, 1]" "[1, 5, 0, -3]"] run
  have "?out ! 1 = (0, 0) \<or> (\<exists>j<length ?y. ?out ! 1 = ?y ! j)" by blast
  moreover have "?out ! 1 \<noteq> (0, 0)" by simp
  ultimately have "\<exists>j<length ?y. ?out ! 1 = ?y ! j" by blast
  with run show ?thesis by blast
qed

section \<open>The polynomial evaluator at one query\<close>

text \<open>The three branches of the bin lookup on an axis that is not empty.\<close>

lemma lookup_idx_cases:
  assumes "breaks \<noteq> []"
  obtains (first) "q \<le> breaks ! 0" and "lookup_idx breaks q = Inr 0"
  | (last) "breaks ! 0 < q" and "breaks ! (length breaks - 1) < q"
      and "lookup_idx breaks q = Inr (length breaks - 1)"
  | (interior) i where "breaks ! 0 < q" and "q \<le> breaks ! (length breaks - 1)"
      and "lookup_idx breaks q = Inr i" and "Suc i < length breaks"
      and "breaks ! i < q" and "q \<le> breaks ! Suc i"
proof (cases "q \<le> breaks ! 0")
  case True
  with assms show ?thesis by (intro first) (simp_all add: lookup_idx_first)
next
  case False
  then have b0: "breaks ! 0 < q" by simp
  show ?thesis
  proof (cases "breaks ! (length breaks - 1) < q")
    case True
    with assms b0 show ?thesis by (intro last) (simp_all add: lookup_idx_last)
  next
    case False
    then have "q \<le> breaks ! (length breaks - 1)" by simp
    with assms b0 show ?thesis using lookup_idx_interior [of breaks q] interior by blast
  qed
qed

text \<open>A query at or before the last breakpoint: the bin of the specification, read in bounds.\<close>

lemma ppval_point_in_range:
  assumes "2 \<le> length breaks" and "length coefs = (length breaks - 1) * order"
    and "1 \<le> order" and "q \<le> breaks ! (length breaks - 1)"
  shows "\<exists>i. lookup_idx breaks q = Inr i \<and> Suc i < length breaks \<and> interval_spec breaks q i \<and>
             ppval_point breaks coefs (length breaks - 1) order q =
               Inr (horner_spec (row_of coefs (length breaks - 1) order i) (q - breaks ! i))"
proof -
  from assms(1) have ne: "breaks \<noteq> []" by auto
  from ne show ?thesis
  proof (cases rule: lookup_idx_cases [where q = q])
    case first
    have "eval_bin breaks coefs (length breaks - 1) order 0 q =
          Inr (horner_spec (row_of coefs (length breaks - 1) order 0) (q - breaks ! 0))"
    proof (rule eval_bin_in_bounds)
      show "0 < length breaks" using ne by simp
      show "0 < length breaks - 1" using assms(1) by simp
    qed (rule assms(2), rule assms(3))
    with first assms(1) show ?thesis by (simp add: ppval_point_def interval_spec_def)
  next
    case last
    with assms(4) show ?thesis by simp
  next
    case (interior i)
    have "eval_bin breaks coefs (length breaks - 1) order i q =
          Inr (horner_spec (row_of coefs (length breaks - 1) order i) (q - breaks ! i))"
    proof (rule eval_bin_in_bounds)
      show "i < length breaks" using interior(4) by simp
      show "i < length breaks - 1" using interior(4) by simp
    qed (rule assms(2), rule assms(3))
    with interior show ?thesis by (simp add: ppval_point_def interval_spec_def)
  qed
qed

text \<open>
  A query to the right of the last breakpoint: line 111 selects index
  \<open>num_breaks - 1\<close>, which is \<open>num_polynomials\<close>, one past the last row.
\<close>

lemma ppval_point_past_last:
  assumes "breaks \<noteq> []" and "sorted breaks" and "length coefs = (length breaks - 1) * order"
    and "breaks ! (length breaks - 1) < q"
  shows "lookup_idx breaks q = Inr (length breaks - 1) \<and>
         ppval_point breaks coefs (length breaks - 1) order q = Inl OutOfBounds"
proof -
  from assms(1) have "breaks ! 0 \<le> breaks ! (length breaks - 1)"
    using assms(2) by (intro sorted_nth_mono) simp_all
  with assms(4) have "breaks ! 0 < q" by simp
  with assms(1,4) have l: "lookup_idx breaks q = Inr (length breaks - 1)"
    by (simp add: lookup_idx_last)
  moreover have "eval_bin breaks coefs (length breaks - 1) order (length breaks - 1) q = Inl OutOfBounds"
    using assms(3) by (rule eval_bin_past_last_row)
  ultimately show ?thesis by (simp add: ppval_point_def)
qed

text \<open>
  One query at or before the last breakpoint, with the coefficients given as a table: the
  interval of the specification exists, is the only one, and its row is evaluated.
\<close>

lemma ppval_point_table_row:
  assumes "2 \<le> length axis" and "sorted axis"
    and "length table = length axis - 1" and "\<forall>row\<in>set table. length row = order"
    and "1 \<le> order" and "q \<le> axis ! (length axis - 1)"
  shows "\<exists>i. interval_spec axis q i \<and> (\<forall>j. interval_spec axis q j \<longrightarrow> j = i) \<and>
             ppval_point axis (column_major table (length axis - 1) order) (length axis - 1) order q =
               Inr (horner_spec (table ! i) (q - axis ! i))"
proof -
  let ?np = "length axis - 1"
  let ?coefs = "column_major table ?np order"
  have "length ?coefs = ?np * order" by (rule length_column_major)
  from ppval_point_in_range [OF assms(1) this assms(5,6)] obtain i
    where i: "Suc i < length axis" "interval_spec axis q i"
      and v: "ppval_point axis ?coefs ?np order q =
                Inr (horner_spec (row_of ?coefs ?np order i) (q - axis ! i))"
    by blast
  from i(1) have row: "i < ?np" by simp
  with assms(3) have "table ! i \<in> set table" by simp
  with assms(4) have "length (table ! i) = order" by blast
  with row have "row_of ?coefs ?np order i = table ! i" by (rule row_of_column_major)
  with v have "ppval_point axis ?coefs ?np order q = Inr (horner_spec (table ! i) (q - axis ! i))"
    by simp
  moreover have "\<forall>j. interval_spec axis q j \<longrightarrow> j = i"
    using interval_spec_unique [OF assms(2) _ i(2)] by blast
  ultimately show ?thesis using i(2) by blast
qed

section \<open>Claims about the polynomial evaluator\<close>

text \<open>
  C1 says that a query to the right of the last breakpoint selects interval \<open>N - 2\<close>
  and is evaluated with that row at \<open>d = q - Axis[N-2]\<close>. The source selects
  \<open>num_breaks - 1\<close> (line 111), one past the last row of the coefficient matrix, under
  the comment ``use last bin''. On the boundary scenario of the specification, at the
  query 5, the selected index is 2 and the evaluation reads behind the end of the
  coefficient buffer.
\<close>

theorem C1_last_bin_off_by_one:
  "lookup_idx [0, 1, 2] 5 = Inr 2 \<and>
   ppval_point [0, 1, 2] (column_major [[1, 0], [1, 1]] 2 2) 2 2 5 = Inl OutOfBounds"
  by code_simp

text \<open>
  C5, as stated: on the boundary scenario the output is \<open>[-1, 0, 1, 1.5, 4]\<close>. The run
  with all five query points does not return this sequence: at the query 5 it reads
  outside the coefficient buffer.
\<close>

theorem C5_counterexample:
  "ppvalFastCore [0, 1, 2] (column_major [[1, 0], [1, 1]] 2 2) 2 2 [-1, 0, 1, 3/2, 5] = Inl OutOfBounds \<and>
   ppvalFastCore [0, 1, 2] (column_major [[1, 0], [1, 1]] 2 2) 2 2 [-1, 0, 1, 3/2, 5]
     \<noteq> Inr [-1, 0, 1, 3/2, 4]"
  by code_simp

text \<open>
  C5, amended: with \<open>Axis = [0, 1, 2]\<close>, the coefficient table \<open>[[1, 0], [1, 1]]\<close>
  and the query points \<open>[-1, 0, 1, 1.5]\<close>, the output is \<open>[-1, 0, 1, 1.5]\<close>.
\<close>

theorem C5_boundary_scenario_in_range:
  "ppvalFastCore [0, 1, 2] (column_major [[1, 0], [1, 1]] 2 2) 2 2 [-1, 0, 1, 3/2] =
     Inr [-1, 0, 1, 3/2]"
  by code_simp

text \<open>
  C6: for a non-decreasing axis of length \<open>N \<ge> 2\<close> and a table of \<open>N - 1\<close> rows with
  \<open>O \<ge> 1\<close> columns each, the evaluator run on a batch of query points returns, at
  every position whose query \<open>q\<close> satisfies \<open>q \<le> Axis[N-1]\<close>, the nested
  multiplication of row \<open>i\<close> at \<open>d = q - Axis[i]\<close>, where \<open>i\<close> is the one interval
  of the specification (0 if \<open>q \<le> Axis[0]\<close>, otherwise \<open>Axis[i] < q \<le> Axis[i+1]\<close>).
  A batch whose query points all satisfy \<open>q \<le> Axis[N-1]\<close> does return an output, one
  value for every query point.
\<close>

theorem C6_horner_on_selected_interval:
  assumes "2 \<le> length axis" and "sorted axis"
    and "length table = length axis - 1" and "\<forall>row\<in>set table. length row = order"
    and "1 \<le> order"
  shows "((\<forall>q\<in>set xx. q \<le> axis ! (length axis - 1)) \<longrightarrow>
            (\<exists>out. ppvalFastCore axis (column_major table (length axis - 1) order)
                     (length axis - 1) order xx = Inr out \<and>
                   length out = length xx)) \<and>
         (\<forall>out k. ppvalFastCore axis (column_major table (length axis - 1) order)
                     (length axis - 1) order xx = Inr out \<and>
                   k < length xx \<and> xx ! k \<le> axis ! (length axis - 1) \<longrightarrow>
            (\<exists>i. interval_spec axis (xx ! k) i \<and>
                 (\<forall>j. interval_spec axis (xx ! k) j \<longrightarrow> j = i) \<and>
                 out ! k = horner_spec (table ! i) (xx ! k - axis ! i)))"
proof (intro conjI impI allI)
  let ?np = "length axis - 1"
  let ?coefs = "column_major table ?np order"
  assume range: "\<forall>q\<in>set xx. q \<le> axis ! (length axis - 1)"
  have "\<exists>v. ppval_point axis ?coefs ?np order q = Inr v" if "q \<in> set xx" for q
  proof -
    from that range have "q \<le> axis ! (length axis - 1)" by blast
    from ppval_point_table_row [OF assms this] show ?thesis by blast
  qed
  then obtain out where "ppvalFastCore axis ?coefs ?np order xx = Inr out"
    using ppvalFastCore_total [of xx axis ?coefs ?np order] by blast
  moreover from this have "length out = length xx" by (rule ppvalFastCore_length)
  ultimately show "\<exists>out. ppvalFastCore axis ?coefs ?np order xx = Inr out \<and>
                         length out = length xx"
    by blast
next
  let ?np = "length axis - 1"
  let ?coefs = "column_major table ?np order"
  fix out k
  assume a: "ppvalFastCore axis ?coefs ?np order xx = Inr out \<and>
             k < length xx \<and> xx ! k \<le> axis ! (length axis - 1)"
  then have run: "ppvalFastCore axis ?coefs ?np order xx = Inr out" and k: "k < length xx"
    and q: "xx ! k \<le> axis ! (length axis - 1)"
    by simp_all
  from run k have "ppval_point axis ?coefs ?np order (xx ! k) = Inr (out ! k)"
    by (rule ppvalFastCore_nth)
  then have at_k: "Inr (out ! k) = ppval_point axis ?coefs ?np order (xx ! k)" by simp
  from ppval_point_table_row [OF assms q] obtain i
    where i: "interval_spec axis (xx ! k) i"
      and only: "\<forall>j. interval_spec axis (xx ! k) j \<longrightarrow> j = i"
      and v: "ppval_point axis ?coefs ?np order (xx ! k) =
                Inr (horner_spec (table ! i) (xx ! k - axis ! i))"
    by (elim exE conjE)
  from at_k v have "out ! k = horner_spec (table ! i) (xx ! k - axis ! i)" by simp
  with i only show "\<exists>i. interval_spec axis (xx ! k) i \<and>
                       (\<forall>j. interval_spec axis (xx ! k) j \<longrightarrow> j = i) \<and>
                       out ! k = horner_spec (table ! i) (xx ! k - axis ! i)"
    by (intro exI [of _ i] conjI)
qed

text \<open>
  C6 on the boundary scenario of the specification without its last query: the batch
  returns five values, and the value at the query 1.5 is that of row 1 at \<open>d = 0.5\<close>.
\<close>

theorem C6_horner_on_selected_interval_witness:
  "\<exists>out. ppvalFastCore [0, 1, 2] (column_major [[1, 0], [1, 1]] 2 2) 2 2 [-1, 0, 1, 3/2, 2] = Inr out \<and>
         length out = length [-1, 0, 1, 3/2, 2 :: real] \<and>
         interval_spec [0, 1, 2] (3/2) 1 \<and>
         out ! 3 = horner_spec [1, 1] (3/2 - 1) \<and>
         horner_spec [1, 1] (3/2 - 1) = 3/2"
proof -
  let ?axis = "[0, 1, 2 :: real]" and ?table = "[[1, 0], [1, 1 :: real]]"
  let ?xx = "[-1, 0, 1, 3/2, 2 :: real]"
  have h1: "2 \<le> length ?axis" by simp
  have h2: "sorted ?axis" by simp
  have h3: "length ?table = length ?axis - 1" by simp
  have h4: "\<forall>row\<in>set ?table. length row = 2" by simp
  have h5: "1 \<le> (2 :: nat)" by simp
  have np: "length ?axis - 1 = 2" by simp
  note c6 = C6_horner_on_selected_interval [OF h1 h2 h3 h4 h5, of ?xx, unfolded np]
  have range: "\<forall>q\<in>set ?xx. q \<le> ?axis ! 2" by simp
  from mp [OF conjunct1 [OF c6] range] obtain out
    where run: "ppvalFastCore ?axis (column_major ?table 2 2) 2 2 ?xx = Inr out"
      and len: "length out = length ?xx"
    by (elim exE conjE)
  have k: "3 < length ?xx" "?xx ! 3 \<le> ?axis ! 2" by simp_all
  from conjunct2 [OF c6]
  have "ppvalFastCore ?axis (column_major ?table 2 2) 2 2 ?xx = Inr out \<and>
          3 < length ?xx \<and> ?xx ! 3 \<le> ?axis ! 2 \<longrightarrow>
        (\<exists>i. interval_spec ?axis (?xx ! 3) i \<and>
             (\<forall>j. interval_spec ?axis (?xx ! 3) j \<longrightarrow> j = i) \<and>
             out ! 3 = horner_spec (?table ! i) (?xx ! 3 - ?axis ! i))"
    by (elim allE)
  from mp [OF this conjI [OF run conjI [OF k]]] obtain i
    where only: "\<forall>j. interval_spec ?axis (?xx ! 3) j \<longrightarrow> j = i"
      and v: "out ! 3 = horner_spec (?table ! i) (?xx ! 3 - ?axis ! i)"
    by (elim exE conjE)
  have s: "interval_spec ?axis (3/2) 1" by (simp add: interval_spec_def)
  then have "interval_spec ?axis (?xx ! 3) 1" by simp
  with only have "i = 1" by blast
  with v have "out ! 3 = horner_spec [1, 1] (3/2 - 1)" by simp
  moreover have "horner_spec [1, 1] (3/2 - 1) = 3/2" by (simp add: horner_spec_def)
  ultimately show ?thesis using run len s by blast
qed

text \<open>
  C7: for \<open>N \<ge> 2\<close>, \<open>O \<ge> 1\<close>, a non-decreasing axis and a coefficient buffer of
  \<open>(N - 1) * O\<close> entries, a batch whose query points are all at most \<open>Axis[N-1]\<close>
  selects rows of index at most \<open>N - 2\<close> only and runs to its end without a read out
  of bounds. This does not extend to the right of the axis: every query
  \<open>q > Axis[N-1]\<close> selects index \<open>N - 1\<close> and ends in a read out of bounds.
\<close>

theorem C7_reads_in_bounds:
  assumes "2 \<le> length breaks" and "1 \<le> order" and "sorted breaks"
    and "length coefs = (length breaks - 1) * order"
  shows "((\<forall>q\<in>set xx. q \<le> breaks ! (length breaks - 1)) \<longrightarrow>
            (\<forall>q\<in>set xx. \<exists>i. lookup_idx breaks q = Inr i \<and> i \<le> length breaks - 2) \<and>
            (\<exists>out. ppvalFastCore breaks coefs (length breaks - 1) order xx = Inr out \<and>
                   length out = length xx)) \<and>
         (breaks ! (length breaks - 1) < q \<longrightarrow>
            lookup_idx breaks q = Inr (length breaks - 1) \<and>
            ppval_point breaks coefs (length breaks - 1) order q = Inl OutOfBounds \<and>
            ppvalFastCore breaks coefs (length breaks - 1) order [q] = Inl OutOfBounds)"
proof (intro conjI impI)
  assume range: "\<forall>q\<in>set xx. q \<le> breaks ! (length breaks - 1)"
  have point: "\<exists>i. lookup_idx breaks q = Inr i \<and> Suc i < length breaks \<and>
                   (\<exists>v. ppval_point breaks coefs (length breaks - 1) order q = Inr v)"
    if "q \<in> set xx" for q
  proof -
    from that range have "q \<le> breaks ! (length breaks - 1)" by blast
    from ppval_point_in_range [OF assms(1,4,2) this] show ?thesis by blast
  qed
  show "\<forall>q\<in>set xx. \<exists>i. lookup_idx breaks q = Inr i \<and> i \<le> length breaks - 2"
  proof
    fix q assume "q \<in> set xx"
    from point [OF this] obtain i where "lookup_idx breaks q = Inr i" "Suc i < length breaks"
      by blast
    moreover from this have "i \<le> length breaks - 2" by simp
    ultimately show "\<exists>i. lookup_idx breaks q = Inr i \<and> i \<le> length breaks - 2" by blast
  qed
  from point have "\<forall>q\<in>set xx. \<exists>v. ppval_point breaks coefs (length breaks - 1) order q = Inr v"
    by blast
  then obtain out where "ppvalFastCore breaks coefs (length breaks - 1) order xx = Inr out"
    using ppvalFastCore_total by blast
  moreover from this have "length out = length xx" by (rule ppvalFastCore_length)
  ultimately show "\<exists>out. ppvalFastCore breaks coefs (length breaks - 1) order xx = Inr out \<and>
                         length out = length xx"
    by blast
next
  assume past: "breaks ! (length breaks - 1) < q"
  from assms(1) have ne: "breaks \<noteq> []" by auto
  from ppval_point_past_last [OF ne assms(3,4) past]
  have l: "lookup_idx breaks q = Inr (length breaks - 1)"
    and p: "ppval_point breaks coefs (length breaks - 1) order q = Inl OutOfBounds"
    by simp_all
  from l show "lookup_idx breaks q = Inr (length breaks - 1)" .
  from p show "ppval_point breaks coefs (length breaks - 1) order q = Inl OutOfBounds" .
  from p show "ppvalFastCore breaks coefs (length breaks - 1) order [q] = Inl OutOfBounds"
    by simp
qed

text \<open>C7 on the boundary scenario: a batch inside the axis range, and the query 5.\<close>

theorem C7_reads_in_bounds_witness:
  "(\<exists>out. ppvalFastCore [0, 1, 2] [1, 1, 0, 1] 2 2 [-1, 0, 1, 3/2, 2] = Inr out \<and>
          length out = length [-1, 0, 1, 3/2, 2 :: real]) \<and>
   lookup_idx [0, 1, 2] 5 = Inr 2 \<and>
   ppvalFastCore [0, 1, 2] [1, 1, 0, 1] 2 2 [5] = Inl OutOfBounds"
proof -
  let ?breaks = "[0, 1, 2 :: real]" and ?coefs = "[1, 1, 0, 1 :: real]"
  let ?xx = "[-1, 0, 1, 3/2, 2 :: real]"
  have h1: "2 \<le> length ?breaks" by simp
  have h2: "1 \<le> (2 :: nat)" by simp
  have h3: "sorted ?breaks" by simp
  have h4: "length ?coefs = (length ?breaks - 1) * 2" by simp
  have h5: "\<forall>q\<in>set ?xx. q \<le> ?breaks ! (length ?breaks - 1)" by simp
  have h6: "?breaks ! (length ?breaks - 1) < 5" by simp
  from C7_reads_in_bounds [OF h1 h2 h3 h4, of ?xx 5] h5 h6
  have "(\<exists>out. ppvalFastCore ?breaks ?coefs (length ?breaks - 1) 2 ?xx = Inr out \<and>
               length out = length ?xx) \<and>
        lookup_idx ?breaks 5 = Inr (length ?breaks - 1) \<and>
        ppvalFastCore ?breaks ?coefs (length ?breaks - 1) 2 [5] = Inl OutOfBounds"
    by blast
  moreover have "length ?breaks - 1 = 2" by simp
  ultimately show ?thesis by (simp only:)
qed

text \<open>
  C9: for a non-decreasing axis and two queries \<open>q1 \<le> q2\<close>, the index selected for
  \<open>q1\<close> is at most the index selected for \<open>q2\<close>; an index is selected for both
  whenever the axis is not empty.
\<close>

theorem C9_lookup_monotone:
  assumes "sorted breaks" and "q1 \<le> q2"
  shows "(breaks \<noteq> [] \<longrightarrow>
            (\<exists>i1 i2. lookup_idx breaks q1 = Inr i1 \<and> lookup_idx breaks q2 = Inr i2)) \<and>
         (\<forall>i1 i2. lookup_idx breaks q1 = Inr i1 \<and> lookup_idx breaks q2 = Inr i2 \<longrightarrow> i1 \<le> i2)"
proof (cases "breaks = []")
  case True
  then show ?thesis by (simp add: lookup_idx_empty)
next
  case ne: False
  have le: "breaks ! 0 \<le> breaks ! (length breaks - 1)"
    using assms(1) ne by (intro sorted_nth_mono) simp_all
  have "\<exists>i1 i2. lookup_idx breaks q1 = Inr i1 \<and> lookup_idx breaks q2 = Inr i2 \<and> i1 \<le> i2"
    using ne
  proof (cases rule: lookup_idx_cases [where q = q2])
    case first
    with assms(2) have "q1 \<le> breaks ! 0" by simp
    with ne have "lookup_idx breaks q1 = Inr 0" by (simp add: lookup_idx_first)
    with first show ?thesis by simp
  next
    case last2: last
    from ne show ?thesis
    proof (cases rule: lookup_idx_cases [where q = q1])
      case first
      with last2 show ?thesis by simp
    next
      case last
      with last2 show ?thesis by simp
    next
      case (interior i)
      then have "i \<le> length breaks - 1" by simp
      with interior last2 show ?thesis by simp
    qed
  next
    case int2: (interior i2)
    from ne show ?thesis
    proof (cases rule: lookup_idx_cases [where q = q1])
      case first
      with int2 show ?thesis by simp
    next
      case last
      with int2(2) assms(2) show ?thesis by simp
    next
      case (interior i1)
      have "i1 \<le> i2"
      proof (rule ccontr)
        assume "\<not> i1 \<le> i2"
        then have "Suc i2 \<le> i1" by simp
        moreover from interior(4) have "i1 < length breaks" by simp
        ultimately have "breaks ! Suc i2 \<le> breaks ! i1"
          using assms(1) by (intro sorted_nth_mono)
        with interior(5) int2(6) assms(2) show False by simp
      qed
      with interior int2 show ?thesis by simp
    qed
  qed
  then show ?thesis by auto
qed

text \<open>C9 on an axis with a repeated breakpoint.\<close>

theorem C9_lookup_monotone_witness:
  "lookup_idx [0, 1, 1, 2] 1 = Inr 0 \<and> lookup_idx [0, 1, 1, 2] (3/2) = Inr 2 \<and> (0 :: nat) \<le> 2"
proof -
  have h1: "sorted [0, 1, 1, 2 :: real]" by simp
  have h2: "(1 :: real) \<le> 3/2" by simp
  have l1: "lookup_idx [0, 1, 1, 2] 1 = Inr 0" by code_simp
  have l2: "lookup_idx [0, 1, 1, 2] (3/2) = Inr 2" by code_simp
  from C9_lookup_monotone [OF h1 h2] l1 l2 have "(0 :: nat) \<le> 2" by blast
  with l1 l2 show ?thesis by simp
qed

section \<open>Independence of the query points\<close>

text \<open>
  C3, as stated for both evaluators: the output at a position depends on the query point
  of that position only. For the step resampler the two runs below refute it: same axis,
  same samples, the same query 0 at position 1, and different outputs there, because
  the cursor left by the query at position 0 differs.
\<close>

theorem C3_counterexample:
  "nonUniformResampleFast [0, 1, 2] [(1, 0), (2, 0), (3, 0)] [5, 0] = Inr [(3, 0), (2, 0)] \<and>
   nonUniformResampleFast [0, 1, 2] [(1, 0), (2, 0), (3, 0)] [0, 0] = Inr [(1, 0), (1, 0)] \<and>
   [5, 0 :: real] ! 1 = [0, 0] ! 1 \<and>
   [(3, 0), (2, 0) :: sample] ! 1 \<noteq> [(1, 0), (1, 0)] ! 1"
  by code_simp

text \<open>
  C3, amended: two runs of the polynomial evaluator on the same axis and coefficients
  agree at every position where their query points agree. Two runs of the step resampler
  on the same axis and samples agree at every position where their query points agree
  and where, in both runs, no earlier query point exceeds the query point of that
  position.
\<close>

theorem C3_no_cross_point_dependency:
  "(ppvalFastCore breaks coefs np order xx1 = Inr out1 \<and>
    ppvalFastCore breaks coefs np order xx2 = Inr out2 \<and>
    i < length xx1 \<and> i < length xx2 \<and> xx1 ! i = xx2 ! i \<longrightarrow> out1 ! i = out2 ! i) \<and>
   (nonUniformResampleFast x y xi1 = Inr res1 \<and>
    nonUniformResampleFast x y xi2 = Inr res2 \<and>
    m < length xi1 \<and> m < length xi2 \<and> xi1 ! m = xi2 ! m \<and>
    (\<forall>k<m. xi1 ! k \<le> xi1 ! m) \<and> (\<forall>k<m. xi2 ! k \<le> xi2 ! m) \<longrightarrow> res1 ! m = res2 ! m)"
proof (intro conjI impI)
  assume a: "ppvalFastCore breaks coefs np order xx1 = Inr out1 \<and>
    ppvalFastCore breaks coefs np order xx2 = Inr out2 \<and>
    i < length xx1 \<and> i < length xx2 \<and> xx1 ! i = xx2 ! i"
  then have "ppval_point breaks coefs np order (xx1 ! i) = Inr (out1 ! i)"
    by (intro ppvalFastCore_nth) simp_all
  moreover from a have "ppval_point breaks coefs np order (xx2 ! i) = Inr (out2 ! i)"
    by (intro ppvalFastCore_nth) simp_all
  ultimately show "out1 ! i = out2 ! i" using a by simp
next
  assume a: "nonUniformResampleFast x y xi1 = Inr res1 \<and>
    nonUniformResampleFast x y xi2 = Inr res2 \<and>
    m < length xi1 \<and> m < length xi2 \<and> xi1 ! m = xi2 ! m \<and>
    (\<forall>k<m. xi1 ! k \<le> xi1 ! m) \<and> (\<forall>k<m. xi2 ! k \<le> xi2 ! m)"
  then have r1: "nonUniformResampleFast x y xi1 = Inr res1" and m1: "m < length xi1"
    and e1: "\<forall>k<m. xi1 ! k \<le> xi1 ! m"
    and r2: "nonUniformResampleFast x y xi2 = Inr res2" and m2: "m < length xi2"
    and e2: "\<forall>k<m. xi2 ! k \<le> xi2 ! m" and same: "xi1 ! m = xi2 ! m"
    by blast+
  from r1 m1 e1 have "res1 ! m = fresh_value x y (xi1 ! m)"
    by (rule nonUniformResampleFast_nth)
  moreover from r2 m2 e2 have "res2 ! m = fresh_value x y (xi2 ! m)"
    by (rule nonUniformResampleFast_nth)
  ultimately show "res1 ! m = res2 ! m" using same by simp
qed

text \<open>C3, amended, on two pairs of runs that differ at position 0 and agree at position 1.\<close>

theorem C3_no_cross_point_dependency_witness:
  "ppvalFastCore [0, 1, 2] [1, 1, 0, 1] 2 2 [-1, 3/2] = Inr [-1, 3/2] \<and>
   ppvalFastCore [0, 1, 2] [1, 1, 0, 1] 2 2 [2, 3/2] = Inr [2, 3/2] \<and>
   [-1, 3/2 :: real] ! 1 = [2, 3/2 :: real] ! 1 \<and>
   nonUniformResampleFast [0, 1, 2] [(1, 0), (2, 0), (3, 0)] [-1, 1] = Inr [(0, 0), (2, 0)] \<and>
   nonUniformResampleFast [0, 1, 2] [(1, 0), (2, 0), (3, 0)] [0, 1] = Inr [(1, 0), (2, 0)] \<and>
   [(0, 0), (2, 0) :: sample] ! 1 = [(1, 0), (2, 0)] ! 1"
proof -
  let ?x = "[0, 1, 2 :: real]" and ?y = "[(1, 0), (2, 0), (3, 0) :: sample]"
  have p1: "ppvalFastCore ?x [1, 1, 0, 1] 2 2 [-1, 3/2] = Inr [-1, 3/2]" by code_simp
  have p2: "ppvalFastCore ?x [1, 1, 0, 1] 2 2 [2, 3/2] = Inr [2, 3/2]" by code_simp
  have s1: "nonUniformResampleFast ?x ?y [-1, 1] = Inr [(0, 0), (2, 0)]" by code_simp
  have s2: "nonUniformResampleFast ?x ?y [0, 1] = Inr [(1, 0), (2, 0)]" by code_simp
  have i: "1 < length [-1, 3/2 :: real]" "1 < length [2, 3/2 :: real]"
    "[-1, 3/2 :: real] ! 1 = [2, 3/2 :: real] ! 1" by simp_all
  have m: "1 < length [-1, 1 :: real]" "1 < length [0, 1 :: real]"
    "[-1, 1 :: real] ! 1 = [0, 1 :: real] ! 1"
    "\<forall>k<1. [-1, 1 :: real] ! k \<le> [-1, 1] ! 1" "\<forall>k<1. [0, 1 :: real] ! k \<le> [0, 1] ! 1"
    by simp_all
  from C3_no_cross_point_dependency
    [of ?x "[1, 1, 0, 1]" 2 2 "[-1, 3/2]" "[-1, 3/2]" "[2, 3/2]" "[2, 3/2]" 1
        ?x ?y "[-1, 1]" "[(0, 0), (2, 0)]" "[0, 1]" "[(1, 0), (2, 0)]" 1]
    p1 p2 i s1 s2 m
  have "[-1, 3/2 :: real] ! 1 = [2, 3/2] ! 1 \<and> [(0, 0), (2, 0) :: sample] ! 1 = [(1, 0), (2, 0)] ! 1"
    by blast
  with p1 p2 s1 s2 show ?thesis by blast
qed

end
